theory Spec2Isabelle
  imports Main
begin

section \<open>Host objects used by \<open>CounterSession\<close>\<close>

text \<open>
  The class \<open>CounterSession\<close> of \<open>src/index.js\<close> runs inside a host that provides four
  kinds of object: the durable key-value store \<open>this.state.storage\<close>, the
  \<open>ReadableStream\<close> controllers of the responses, the interval timers and the abort
  signals of the requests. Each is modelled by the part of its documented behaviour that
  the class relies on.

  A \<open>ReadableStream\<close> controller accepts a chunk while its stream is readable and throws
  once the stream has been cancelled or closed. The field \<open>enqueued\<close> lists the chunks
  the controller has accepted, oldest first: what the subscriber at the other end of
  the stream is sent.
\<close>

record stream =
  readable :: bool
  enqueued :: "string list"

text \<open>\<open>new ReadableStream({start(c) {controller = c}})\<close>: a readable stream with nothing
  enqueued.\<close>

definition new_stream :: stream where
  "new_stream = \<lparr>readable = True, enqueued = []\<rparr>"

text \<open>\<open>controller.enqueue(data)\<close>: \<open>None\<close> is the thrown \<open>TypeError\<close>.\<close>

definition enqueue :: "stream \<Rightarrow> string \<Rightarrow> stream option" where
  "enqueue st d = (if readable st then Some (st\<lparr>enqueued := enqueued st @ [d]\<rparr>) else None)"

text \<open>
  The effects on the outside world, in program order: reads of the durable store,
  writes that completed, writes that the store rejected, and the outcome of every
  \<open>enqueue\<close>. The list is a history variable; no function of the class reads it.
\<close>

datatype effect =
    StorageGet
  | StoragePut nat
  | StoragePutRejected nat
  | Enqueued nat string
  | EnqueueThrew nat

datatype body = PageShell | EventStream nat | Text string

record response =
  status :: nat
  headers :: "(string \<times> string) list"
  body :: body

datatype outcome = Returned response | Thrown

section \<open>The state of a session\<close>

text \<open>
  \<open>counter\<close>, \<open>clients\<close> and \<open>intervalId\<close> are the fields of the class; \<open>null\<close> is
  \<open>None\<close>. A client object \<open>{controller}\<close> is identified by the number of the stream it
  holds, and the JavaScript \<open>Set\<close> is the list of its members in insertion order, which
  is the order \<open>for ... of\<close> visits them in. The remaining fields are the host:
  the durable store, the streams created so far, the timers that are set, the abort
  listeners that are registered, and the effect history.

  Modelled from the spec: the durable store, an external collaborator of which the
  repository only calls \<open>get\<close> and \<open>put\<close>. Following section 1 of the spec it is a
  key-value map with read-your-writes consistency; following sections 4.2 and 7 a
  \<open>put\<close> either completes or is rejected, and a rejected \<open>put\<close> leaves the map as it
  was. The host runs one handler of a session at a time (section 5 of the spec), so
  every handler below is one atomic state transformer, the \<open>await\<close> on the store
  included.

  A counter value is a JavaScript number that is a natural number: a natural that an
  IEEE double represents. Every natural below \<open>2\<^sup>5\<^sup>3 = 9007199254740992\<close> is one.
\<close>

record session =
  counter :: "nat option"
  clients :: "nat list"
  intervalId :: "nat option"
  storage :: "string \<rightharpoonup> nat"
  streams :: "nat \<Rightarrow> stream"
  next_stream :: nat
  timers :: "nat list"
  next_timer :: nat
  listeners :: "nat list"
  effects :: "effect list"

text \<open>The constructor, on a durable store with the given contents. Timer handles are
  positive integers, as \<open>setInterval\<close> returns them.\<close>

definition activate :: "(string \<rightharpoonup> nat) \<Rightarrow> session" where
  "activate store =
     \<lparr>counter = None, clients = [], intervalId = None, storage = store,
      streams = (\<lambda>_. \<lparr>readable = False, enqueued = []\<rparr>), next_stream = 0,
      timers = [], next_timer = 1, listeners = [], effects = []\<rparr>"

section \<open>The wire record\<close>

definition digit :: "nat \<Rightarrow> char" where
  "digit d = ''0123456789'' ! d"

function show_nat :: "nat \<Rightarrow> string" where
  "show_nat n = (if n < 10 then [digit n] else show_nat (n div 10) @ [digit (n mod 10)])"
  by pat_completeness auto
termination
  by (relation "measure id") auto

declare show_nat.simps [simp del]

text \<open>
  Rounding a natural number to the nearest double, ties to the even significand, as
  every arithmetic operation on numbers does. \<open>ulp m\<close> is the distance between the
  doubles around \<open>m\<close>: \<open>1\<close> below \<open>2\<^sup>5\<^sup>3\<close>, doubling with every further bit.
\<close>

function ulp :: "nat \<Rightarrow> nat" where
  "ulp m = (if m < 9007199254740992 then 1 else 2 * ulp (m div 2))"
  by pat_completeness auto
termination
  by (relation "measure id") auto

declare ulp.simps [simp del]

definition to_double :: "nat \<Rightarrow> nat" where
  "to_double m =
     (let u = ulp m; q = m div u; r = m mod u
      in if 2 * r < u \<or> (2 * r = u \<and> even q) then q * u else (q + 1) * u)"

text \<open>
  \<open>Number::toString\<close> on a natural number. Below \<open>10\<^sup>2\<^sup>1\<close> it is the decimal numeral.
  From \<open>10\<^sup>2\<^sup>1\<close> on it is the exponent form of the shortest digit string \<open>s\<close>, of \<open>k\<close>
  digits, for which \<open>s \<times> 10\<^bsup>n - k\<^esup>\<close> rounds to the number; among several of that
  length the closest, and of two equally close the even one. Seventeen digits always
  suffice for a double; a natural number that is no double, which no counter is, has
  no such string and is printed in decimal.
\<close>

definition distance :: "nat \<Rightarrow> nat \<Rightarrow> nat" where
  "distance a b = (if a \<le> b then b - a else a - b)"

definition candidates :: "nat \<Rightarrow> nat \<Rightarrow> (nat \<times> nat) list" where
  "candidates x k =
     [(s, n). n \<leftarrow> [length (show_nat x), length (show_nat x) + 1],
              s \<leftarrow> [x div 10 ^ (n - k), x div 10 ^ (n - k) + 1],
              10 ^ (k - 1) \<le> s \<and> s < 10 ^ k \<and> to_double (s * 10 ^ (n - k)) = x]"

fun closest :: "nat \<Rightarrow> nat \<Rightarrow> (nat \<times> nat) list \<Rightarrow> (nat \<times> nat) option" where
  "closest x k [] = None"
| "closest x k ((s, n) # cs) =
     (case closest x k cs of
        None \<Rightarrow> Some (s, n)
      | Some (s', n') \<Rightarrow>
          if distance (s * 10 ^ (n - k)) x < distance (s' * 10 ^ (n' - k)) x
             \<or> (distance (s * 10 ^ (n - k)) x = distance (s' * 10 ^ (n' - k)) x \<and> even s)
          then Some (s, n) else Some (s', n'))"

fun shortest :: "nat \<Rightarrow> nat list \<Rightarrow> (nat \<times> nat) option" where
  "shortest x [] = None"
| "shortest x (k # ks) =
     (case closest x k (candidates x k) of None \<Rightarrow> shortest x ks | Some (s, n) \<Rightarrow> Some (s, n))"

definition exponential :: "nat \<Rightarrow> string" where
  "exponential x =
     (case shortest x [1..<18] of
        None \<Rightarrow> show_nat x
      | Some (s, n) \<Rightarrow>
          (case show_nat s of
             [] \<Rightarrow> []
           | d # ds \<Rightarrow> (if ds = [] then [d] else d # CHR ''.'' # ds) @ ''e+'' @ show_nat (n - 1)))"

definition number_string :: "nat \<Rightarrow> string" where
  "number_string n = (if n < 1000000000000000000000 then show_nat n else exponential n)"

text \<open>The template literal \<open>`data: ${this.counter}\n\n`\<close>; a \<open>null\<close> counter prints as
  \<open>null\<close>.\<close>

definition sse_number :: "nat \<Rightarrow> string" where
  "sse_number n = ''data: '' @ number_string n @ [CHR 0x0A, CHR 0x0A]"

definition sse_data :: "nat option \<Rightarrow> string" where
  "sse_data c = (case c of None \<Rightarrow> ''data: null'' @ [CHR 0x0A, CHR 0x0A] | Some n \<Rightarrow> sse_number n)"

section \<open>The methods of \<open>CounterSession\<close>\<close>

text \<open>JavaScript truthiness of \<open>this.intervalId\<close>: \<open>null\<close> and \<open>0\<close> are falsy.\<close>

definition truthy :: "nat option \<Rightarrow> bool" where
  "truthy h = (case h of None \<Rightarrow> False | Some n \<Rightarrow> n \<noteq> 0)"

definition startCounting :: "session \<Rightarrow> session" where
  "startCounting s =
     (if truthy (intervalId s) then s
      else s\<lparr>intervalId := Some (next_timer s),
             timers := timers s @ [next_timer s],
             next_timer := Suc (next_timer s)\<rparr>)"

definition stopCounting :: "session \<Rightarrow> session" where
  "stopCounting s =
     (case intervalId s of
        None \<Rightarrow> s
      | Some h \<Rightarrow> if h \<noteq> 0 then s\<lparr>timers := removeAll h (timers s), intervalId := None\<rparr> else s)"

text \<open>
  The body of the \<open>try\<close>/\<open>catch\<close> in the interval callback, for one client: the chunk is
  enqueued, or the throw is caught and the client is deleted from the set.
\<close>

definition send_or_drop :: "string \<Rightarrow> nat \<Rightarrow> session \<Rightarrow> session" where
  "send_or_drop d c s =
     (case enqueue (streams s c) d of
        Some st \<Rightarrow> s\<lparr>streams := (streams s)(c := st), effects := effects s @ [Enqueued c d]\<rparr>
      | None \<Rightarrow> s\<lparr>clients := removeAll c (clients s), effects := effects s @ [EnqueueThrew c]\<rparr>)"

text \<open>
  \<open>for (const client of this.clients)\<close>. The loop deletes no client but the one it is
  visiting, so it visits exactly the members the set had when the loop began, in
  order.
\<close>

fun broadcast :: "string \<Rightarrow> nat list \<Rightarrow> session \<Rightarrow> session" where
  "broadcast d [] s = s"
| "broadcast d (c # cs) s = broadcast d cs (send_or_drop d c s)"

text \<open>\<open>this.counter++\<close>: \<open>null\<close> counts as \<open>0\<close>, and the sum is rounded to a double, so
  that from \<open>2\<^sup>5\<^sup>3\<close> on adding one no longer gives the next natural number.\<close>

definition increment :: "nat option \<Rightarrow> nat" where
  "increment c = (case c of None \<Rightarrow> 1 | Some n \<Rightarrow> to_double (n + 1))"

text \<open>\<open>await this.state.storage.put("counter", this.counter)\<close>, when the store completes
  the write.\<close>

definition put_counter :: "session \<Rightarrow> session" where
  "put_counter s =
     (case counter s of
        None \<Rightarrow> s
      | Some n \<Rightarrow> s\<lparr>storage := (storage s)(''counter'' \<mapsto> n), effects := effects s @ [StoragePut n]\<rparr>)"

text \<open>The same \<open>await\<close> when the store rejects the write: the store is as it was.\<close>

definition put_rejected :: "session \<Rightarrow> session" where
  "put_rejected s =
     (case counter s of
        None \<Rightarrow> s
      | Some n \<Rightarrow> s\<lparr>effects := effects s @ [StoragePutRejected n]\<rparr>)"

text \<open>The callback that \<open>startCounting\<close> passes to \<open>setInterval\<close>, when the \<open>put\<close>
  completes.\<close>

definition tick :: "session \<Rightarrow> session" where
  "tick s =
     (let s1 = s\<lparr>counter := Some (increment (counter s))\<rparr>;
          s2 = put_counter s1;
          s3 = broadcast (sse_data (counter s2)) (clients s2) s2
      in if length (clients s3) = 0 then stopCounting s3 else s3)"

text \<open>
  The callback when the \<open>put\<close> is rejected: the \<open>await\<close> throws out of the callback, so
  nothing after it runs. The counter keeps the increment, nothing is sent, and the
  timer stays set.
\<close>

definition tick_rejected :: "session \<Rightarrow> session" where
  "tick_rejected s = put_rejected (s\<lparr>counter := Some (increment (counter s))\<rparr>)"

text \<open>\<open>await this.state.storage.get("counter") || 0\<close>: an absent entry and a stored \<open>0\<close>
  both give \<open>0\<close>.\<close>

definition get_counter :: "(string \<rightharpoonup> nat) \<Rightarrow> nat" where
  "get_counter store = (case store ''counter'' of None \<Rightarrow> 0 | Some v \<Rightarrow> if v = 0 then 0 else v)"

definition init_counter :: "session \<Rightarrow> session" where
  "init_counter s =
     (if counter s = None
      then s\<lparr>counter := Some (get_counter (storage s)), effects := effects s @ [StorageGet]\<rparr>
      else s)"

definition events_response :: "nat \<Rightarrow> response" where
  "events_response c =
     \<lparr>status = 200,
      headers = [(''Content-Type'', ''text/event-stream''), (''Cache-Control'', ''no-cache''),
                 (''Connection'', ''keep-alive'')],
      body = EventStream c\<rparr>"

text \<open>
  The \<open>/events\<close> branch of \<open>fetch\<close>, as a function of the stream that the host's
  \<open>ReadableStream\<close> constructor hands back. The \<open>enqueue\<close> of the \<open>else\<close> branch is
  outside any \<open>try\<close>: a throw there leaves \<open>fetch\<close> before the abort listener is
  registered, with the client already in the set.
\<close>

definition fetch_events_on :: "stream \<Rightarrow> session \<Rightarrow> outcome \<times> session" where
  "fetch_events_on st0 s =
     (let s1 = init_counter s;
          c = next_stream s1;
          s2 = s1\<lparr>streams := (streams s1)(c := st0), next_stream := Suc c\<rparr>;
          s3 = s2\<lparr>clients := (if c \<in> set (clients s2) then clients s2 else clients s2 @ [c])\<rparr>
      in if length (clients s3) = 1
         then (Returned (events_response c),
               (startCounting s3)\<lparr>listeners := listeners (startCounting s3) @ [c]\<rparr>)
         else (case enqueue (streams s3 c) (sse_data (counter s3)) of
                 None \<Rightarrow> (Thrown, s3)
               | Some st \<Rightarrow>
                   (Returned (events_response c),
                    s3\<lparr>streams := (streams s3)(c := st),
                       effects := effects s3 @ [Enqueued c (sse_data (counter s3))],
                       listeners := listeners s3 @ [c]\<rparr>)))"

text \<open>The branch as it runs: the constructor hands back a new, readable stream.\<close>

definition fetch_events :: "session \<Rightarrow> outcome \<times> session" where
  "fetch_events s = fetch_events_on new_stream s"

definition page_response :: response where
  "page_response = \<lparr>status = 200, headers = [(''Content-Type'', ''text/html'')], body = PageShell\<rparr>"

definition not_found :: response where
  "not_found =
     \<lparr>status = 404, headers = [(''content-type'', ''text/plain;charset=UTF-8'')],
      body = Text ''Not found''\<rparr>"

text \<open>\<open>fetch(request)\<close>, on the path of the request's URL.\<close>

definition fetch :: "string \<Rightarrow> session \<Rightarrow> outcome \<times> session" where
  "fetch path s =
     (if path = ''/'' \<or> path = '''' then (Returned page_response, s)
      else if path = ''/events'' then fetch_events s
      else (Returned not_found, s))"

text \<open>The listener that \<open>fetch\<close> adds to \<open>request.signal\<close>, for the client \<open>c\<close>.\<close>

definition on_abort :: "nat \<Rightarrow> session \<Rightarrow> session" where
  "on_abort c s =
     (let s1 = s\<lparr>clients := removeAll c (clients s)\<rparr>
      in if length (clients s1) = 0 then stopCounting s1 else s1)"

section \<open>Runs of a session\<close>

text \<open>
  What the host can do to a session: deliver a request, fire the interval callback
  while a timer is set, with the store completing the \<open>put\<close> of that tick or rejecting
  it, fire the abort signal of a request whose listener is registered (a signal fires
  once), and cancel the stream of a response, after which its controller throws. An
  input that the host cannot deliver in the current state changes nothing.
\<close>

datatype input =
    Request string
  | TimerFires
  | TimerFiresPutRejected
  | AbortSignal nat
  | StreamCancelled nat

fun step :: "session \<Rightarrow> input \<Rightarrow> session" where
  "step s (Request path) = snd (fetch path s)"
| "step s TimerFires = (if timers s = [] then s else tick s)"
| "step s TimerFiresPutRejected = (if timers s = [] then s else tick_rejected s)"
| "step s (AbortSignal c) =
     (if c \<in> set (listeners s) then on_abort c (s\<lparr>listeners := removeAll c (listeners s)\<rparr>) else s)"
| "step s (StreamCancelled c) =
     (if c < next_stream s
      then s\<lparr>streams := (streams s)(c := (streams s c)\<lparr>readable := False\<rparr>)\<rparr>
      else s)"

definition run :: "session \<Rightarrow> input list \<Rightarrow> session" where
  "run s ins = foldl step s ins"

section \<open>Invariants of a run\<close>

definition timer_inv :: "session \<Rightarrow> bool" where
  "timer_inv s =
     (0 < next_timer s \<and>
      (case intervalId s of
         None \<Rightarrow> timers s = [] \<and> clients s = []
       | Some h \<Rightarrow> 0 < h \<and> h < next_timer s \<and> timers s = [h] \<and> clients s \<noteq> []))"

definition client_inv :: "session \<Rightarrow> bool" where
  "client_inv s = (distinct (clients s) \<and> list_all (\<lambda>c. c < next_stream s) (clients s))"

definition listener_inv :: "session \<Rightarrow> bool" where
  "listener_inv s = list_all (\<lambda>c. c \<in> set (listeners s)) (clients s)"

definition store_inv :: "session \<Rightarrow> bool" where
  "store_inv s = (case counter s of None \<Rightarrow> clients s = [] | Some n \<Rightarrow> True)"

text \<open>
  The value an \<open>/events\<close> request leaves in the counter, the store after the writes of an
  effect history, and the number of reads in the history of a state.
\<close>

definition loaded :: "session \<Rightarrow> nat" where
  "loaded s = (case counter s of None \<Rightarrow> get_counter (storage s) | Some n \<Rightarrow> n)"



fun replay :: "(string \<rightharpoonup> nat) \<Rightarrow> effect list \<Rightarrow> (string \<rightharpoonup> nat)" where
  "replay st [] = st"
| "replay st (StoragePut n # es) = replay (st(''counter'' \<mapsto> n)) es"
| "replay st (e # es) = replay st es"

text \<open>Whether the last \<open>put\<close> of a history, if there is one, was rejected.\<close>

fun pending :: "bool \<Rightarrow> effect list \<Rightarrow> bool" where
  "pending b [] = b"
| "pending b (StoragePut n # es) = pending False es"
| "pending b (StoragePutRejected n # es) = pending True es"
| "pending b (e # es) = pending b es"

definition unsaved :: "effect list \<Rightarrow> bool" where
  "unsaved es = pending False es"

fun committed_first :: "(string \<rightharpoonup> nat) \<Rightarrow> bool \<Rightarrow> effect list \<Rightarrow> bool" where
  "committed_first st b [] = True"
| "committed_first st b (StoragePut n # es) = committed_first (st(''counter'' \<mapsto> n)) False es"
| "committed_first st b (StoragePutRejected n # es) = committed_first st True es"
| "committed_first st b (Enqueued c d # es) =
     ((b \<or> d = sse_number (get_counter st)) \<and> committed_first st b es)"
| "committed_first st b (e # es) = committed_first st b es"

definition history_inv :: "(string \<rightharpoonup> nat) \<Rightarrow> session \<Rightarrow> bool" where
  "history_inv store s =
     (storage s = replay store (effects s) \<and> committed_first store False (effects s) \<and>
      (unsaved (effects s) \<or> (case counter s of None \<Rightarrow> True | Some n \<Rightarrow> get_counter (storage s) = n)))"


definition reads :: "session \<Rightarrow> nat" where
  "reads s = length (filter (\<lambda>e. e = StorageGet) (effects s))"

definition reads_inv :: "session \<Rightarrow> bool" where
  "reads_inv s = (case counter s of None \<Rightarrow> reads s = 0 | Some n \<Rightarrow> reads s \<le> 1)"

section \<open>What each method leaves unchanged\<close>

lemma startCounting_frame [simp]:
  "counter (startCounting s) = counter s" "clients (startCounting s) = clients s"
  "storage (startCounting s) = storage s" "streams (startCounting s) = streams s"
  "next_stream (startCounting s) = next_stream s" "listeners (startCounting s) = listeners s"
  "effects (startCounting s) = effects s"
  by (simp_all add: startCounting_def)

lemma stopCounting_frame [simp]:
  "counter (stopCounting s) = counter s" "clients (stopCounting s) = clients s"
  "storage (stopCounting s) = storage s" "streams (stopCounting s) = streams s"
  "next_stream (stopCounting s) = next_stream s" "listeners (stopCounting s) = listeners s"
  "effects (stopCounting s) = effects s" "next_timer (stopCounting s) = next_timer s"
  by (simp_all add: stopCounting_def split: option.splits)

lemma send_or_drop_frame [simp]:
  "counter (send_or_drop d c s) = counter s" "intervalId (send_or_drop d c s) = intervalId s"
  "storage (send_or_drop d c s) = storage s" "next_stream (send_or_drop d c s) = next_stream s"
  "timers (send_or_drop d c s) = timers s" "next_timer (send_or_drop d c s) = next_timer s"
  "listeners (send_or_drop d c s) = listeners s"
  by (simp_all add: send_or_drop_def split: option.splits)

lemma broadcast_frame [simp]:
  "counter (broadcast d cs s) = counter s" "intervalId (broadcast d cs s) = intervalId s"
  "storage (broadcast d cs s) = storage s" "next_stream (broadcast d cs s) = next_stream s"
  "timers (broadcast d cs s) = timers s" "next_timer (broadcast d cs s) = next_timer s"
  "listeners (broadcast d cs s) = listeners s"
  by (induction cs arbitrary: s; simp)+

lemma put_counter_frame [simp]:
  "counter (put_counter s) = counter s" "clients (put_counter s) = clients s"
  "intervalId (put_counter s) = intervalId s" "streams (put_counter s) = streams s"
  "next_stream (put_counter s) = next_stream s" "timers (put_counter s) = timers s"
  "next_timer (put_counter s) = next_timer s" "listeners (put_counter s) = listeners s"
  by (simp_all add: put_counter_def split: option.splits)

lemma tick_rejected_frame [simp]:
  "counter (tick_rejected s) = Some (increment (counter s))"
  "clients (tick_rejected s) = clients s"
  "intervalId (tick_rejected s) = intervalId s" "streams (tick_rejected s) = streams s"
  "next_stream (tick_rejected s) = next_stream s" "timers (tick_rejected s) = timers s"
  "next_timer (tick_rejected s) = next_timer s" "listeners (tick_rejected s) = listeners s"
  "storage (tick_rejected s) = storage s"
  "effects (tick_rejected s) = effects s @ [StoragePutRejected (increment (counter s))]"
  by (simp_all add: tick_rejected_def put_rejected_def)

lemma on_abort_frame [simp]:
  "counter (on_abort c s) = counter s" "storage (on_abort c s) = storage s"
  "streams (on_abort c s) = streams s" "effects (on_abort c s) = effects s"
  "next_stream (on_abort c s) = next_stream s" "listeners (on_abort c s) = listeners s"
  by (simp_all add: on_abort_def Let_def)

lemma init_counter_frame [simp]:
  "clients (init_counter s) = clients s"
  "intervalId (init_counter s) = intervalId s" "streams (init_counter s) = streams s"
  "next_stream (init_counter s) = next_stream s" "timers (init_counter s) = timers s"
  "next_timer (init_counter s) = next_timer s" "listeners (init_counter s) = listeners s"
  "storage (init_counter s) = storage s"
  by (simp_all add: init_counter_def)

lemma timer_inv_activate: "timer_inv (activate store)"
  by (simp add: timer_inv_def activate_def)

lemma timer_inv_stop:
  "timer_inv s \<Longrightarrow> timer_inv (stopCounting (s\<lparr>clients := []\<rparr>))"
  by (auto simp: timer_inv_def stopCounting_def split: option.splits)

lemma timer_inv_fetch_events: "timer_inv s \<Longrightarrow> timer_inv (snd (fetch_events s))"
  by (auto simp: timer_inv_def fetch_events_def fetch_events_on_def Let_def startCounting_def truthy_def enqueue_def new_stream_def
      split: option.splits if_splits)

lemma send_or_drop_clients: "set (clients (send_or_drop d c s)) \<subseteq> set (clients s)"
  by (auto simp: send_or_drop_def split: option.splits)

lemma broadcast_clients_subset: "set (clients (broadcast d cs s)) \<subseteq> set (clients s)"
proof (induction cs arbitrary: s)
  case Nil show ?case by simp
next
  case (Cons c cs)
  show ?case using Cons.IH [of "send_or_drop d c s"] send_or_drop_clients [of d c s] by auto
qed

lemma timer_inv_clients:
  assumes "timer_inv s" "intervalId s' = intervalId s" "timers s' = timers s" "next_timer s' = next_timer s"
    "set (clients s') \<subseteq> set (clients s)"
  shows "timer_inv (if length (clients s') = 0 then stopCounting s' else s')"
  using assms by (auto simp: timer_inv_def stopCounting_def split: option.splits)

lemma timer_inv_tick: "timer_inv s \<Longrightarrow> timer_inv (tick s)"
  unfolding tick_def Let_def
  by (rule timer_inv_clients) (use broadcast_clients_subset [of _ _ "put_counter (s\<lparr>counter := Some (increment (counter s))\<rparr>)"] in simp_all)

lemma timer_inv_abort: "timer_inv s \<Longrightarrow> timer_inv (on_abort c (s\<lparr>listeners := ls\<rparr>))"
  unfolding on_abort_def Let_def by (rule timer_inv_clients) (auto simp: timer_inv_def)

lemma timer_inv_step: "timer_inv s \<Longrightarrow> timer_inv (step s i)"
proof (cases i)
  case (Request p) then show "timer_inv s \<Longrightarrow> ?thesis"
    by (simp add: fetch_def timer_inv_fetch_events)
next
  case TimerFires then show "timer_inv s \<Longrightarrow> ?thesis" by (simp add: timer_inv_tick)
next
  case TimerFiresPutRejected then show "timer_inv s \<Longrightarrow> ?thesis"
    by (simp add: timer_inv_def split: option.splits)
next
  case (AbortSignal c) then show "timer_inv s \<Longrightarrow> ?thesis" by (simp add: timer_inv_abort)
next
  case (StreamCancelled c) then show "timer_inv s \<Longrightarrow> ?thesis" by (simp add: timer_inv_def split: option.splits)
qed

lemma timer_inv_run: "timer_inv s \<Longrightarrow> timer_inv (run s ins)"
  unfolding run_def by (induction ins arbitrary: s) (simp_all add: timer_inv_step)


lemma timer_inv_reachable: "timer_inv (run (activate store) ins)"
  by (simp add: timer_inv_run timer_inv_activate)

lemma run_snoc: "run s (ins @ [i]) = step (run s ins) i"
  by (simp add: run_def)


lemma send_or_drop_streams:
  "streams (send_or_drop d c s) =
     (if readable (streams s c)
      then (streams s)(c := (streams s c)\<lparr>enqueued := enqueued (streams s c) @ [d]\<rparr>)
      else streams s)"
  by (simp add: send_or_drop_def enqueue_def)

lemma send_or_drop_clients_eq:
  "clients (send_or_drop d c s) =
     (if readable (streams s c) then clients s else removeAll c (clients s))"
  by (simp add: send_or_drop_def enqueue_def)

lemma send_or_drop_effects:
  "effects (send_or_drop d c s) =
     effects s @ [if readable (streams s c) then Enqueued c d else EnqueueThrew c]"
  by (simp add: send_or_drop_def enqueue_def)

lemma broadcast_streams:
  "distinct cs \<Longrightarrow>
   streams (broadcast d cs s) x =
     (if x \<in> set cs \<and> readable (streams s x)
      then (streams s x)\<lparr>enqueued := enqueued (streams s x) @ [d]\<rparr>
      else streams s x)"
proof (induction cs arbitrary: s)
  case Nil
  show ?case by simp
next
  case (Cons c cs)
  from Cons.prems have d: "distinct cs" and n: "c \<notin> set cs" by simp_all
  show ?case
    using n by (auto simp: Cons.IH [OF d] send_or_drop_streams)
qed

lemma broadcast_clients:
  "distinct cs \<Longrightarrow>
   clients (broadcast d cs s) =
     filter (\<lambda>x. x \<notin> set cs \<or> readable (streams s x)) (clients s)"
proof (induction cs arbitrary: s)
  case Nil
  show ?case by simp
next
  case (Cons c cs)
  from Cons.prems have d: "distinct cs" and n: "c \<notin> set cs" by simp_all
  show ?case
  proof (cases "readable (streams s c)")
    case True
    then show ?thesis
      using n by (auto simp: Cons.IH [OF d] send_or_drop_streams send_or_drop_clients_eq
          intro!: filter_cong)
  next
    case False
    then show ?thesis
      using n by (auto simp: Cons.IH [OF d] send_or_drop_streams send_or_drop_clients_eq
          removeAll_filter_not_eq intro!: filter_cong)
  qed
qed

lemma broadcast_effects:
  "distinct cs \<Longrightarrow>
   effects (broadcast d cs s) =
     effects s @ map (\<lambda>c. if readable (streams s c) then Enqueued c d else EnqueueThrew c) cs"
proof (induction cs arbitrary: s)
  case Nil
  show ?case by simp
next
  case (Cons c cs)
  from Cons.prems have d: "distinct cs" and n: "c \<notin> set cs" by simp_all
  show ?case
    using n by (auto simp: Cons.IH [OF d] send_or_drop_streams send_or_drop_effects)
qed

lemma filter_mem_imp:
  "filter (\<lambda>x. x \<notin> set xs \<or> P x) xs = filter P xs"
  "filter (\<lambda>x. x \<in> set xs \<longrightarrow> P x) xs = filter P xs"
  by (rule filter_cong; auto)+

lemma client_inv_activate: "client_inv (activate store)"
  by (simp add: client_inv_def activate_def)

lemma client_inv_sub:
  assumes "client_inv s" "clients s' = filter P (clients s)" "next_stream s' = next_stream s"
  shows "client_inv (if length (clients s') = 0 then stopCounting s' else s')"
  using assms by (auto simp: client_inv_def list_all_iff)

lemma client_inv_tick: "client_inv s \<Longrightarrow> client_inv (tick s)"
  unfolding tick_def Let_def
  by (rule client_inv_sub [where P = "\<lambda>x. readable (streams s x)"])
     (simp_all add: client_inv_def broadcast_clients filter_mem_imp)

lemma client_inv_abort: "client_inv s \<Longrightarrow> client_inv (on_abort c (s\<lparr>listeners := ls\<rparr>))"
  unfolding on_abort_def Let_def
  by (rule client_inv_sub [where P = "\<lambda>x. x \<noteq> c"])
     (auto simp: client_inv_def removeAll_filter_not_eq list_all_iff intro!: filter_cong)

lemma client_inv_fetch_events: "client_inv s \<Longrightarrow> client_inv (snd (fetch_events s))"
  by (auto simp: client_inv_def fetch_events_def fetch_events_on_def Let_def enqueue_def new_stream_def list_all_iff
      split: option.splits if_splits)

lemma client_inv_step: "client_inv s \<Longrightarrow> client_inv (step s i)"
proof (cases i)
  case (Request p) then show "client_inv s \<Longrightarrow> ?thesis"
    by (simp add: fetch_def client_inv_fetch_events)
next
  case TimerFires then show "client_inv s \<Longrightarrow> ?thesis" by (simp add: client_inv_tick)
next
  case TimerFiresPutRejected then show "client_inv s \<Longrightarrow> ?thesis"
    by (simp add: client_inv_def)
next
  case (AbortSignal c) then show "client_inv s \<Longrightarrow> ?thesis" by (simp add: client_inv_abort)
next
  case (StreamCancelled c) then show "client_inv s \<Longrightarrow> ?thesis" by (simp add: client_inv_def)
qed

lemma client_inv_reachable: "client_inv (run (activate store) ins)"
proof (induction ins rule: rev_induct)
  case Nil
  show ?case by (simp add: run_def client_inv_activate)
next
  case (snoc i ins)
  then show ?case by (simp add: run_snoc client_inv_step)
qed

lemma tick_clients:
  "client_inv s \<Longrightarrow> clients (tick s) = filter (\<lambda>c. readable (streams s c)) (clients s)"
  by (simp add: tick_def Let_def client_inv_def broadcast_clients filter_mem_imp)

lemma tick_streams:
  "client_inv s \<Longrightarrow>
   streams (tick s) c =
     (if c \<in> set (clients s) \<and> readable (streams s c)
      then (streams s c)\<lparr>enqueued := enqueued (streams s c) @ [sse_number (increment (counter s))]\<rparr>
      else streams s c)"
  by (simp add: tick_def Let_def client_inv_def broadcast_streams put_counter_def sse_data_def)

lemma tick_effects:
  "client_inv s \<Longrightarrow>
   effects (tick s) =
     effects s @ StoragePut (increment (counter s)) #
       map (\<lambda>c. if readable (streams s c) then Enqueued c (sse_number (increment (counter s)))
                 else EnqueueThrew c) (clients s)"
  by (simp add: tick_def Let_def client_inv_def broadcast_effects put_counter_def sse_data_def)

lemma tick_timers:
  "client_inv s \<Longrightarrow> timer_inv s \<Longrightarrow>
   timers (tick s) = (if list_ex (\<lambda>c. readable (streams s c)) (clients s) then timers s else [])"
  by (auto simp: tick_def Let_def client_inv_def broadcast_clients filter_mem_imp list_ex_iff
      filter_empty_conv stopCounting_def timer_inv_def split: option.splits)


section \<open>The decimal numeral of the record\<close>

lemma show_nat_43: "show_nat 43 = ''43''"
  by (simp add: show_nat.simps digit_def)





section \<open>Doubles and decimal numerals\<close>

lemma ulp_small: "m < 9007199254740992 \<Longrightarrow> ulp m = 1"
  by (simp add: ulp.simps)

lemma to_double_small: "m < 9007199254740992 \<Longrightarrow> to_double m = m"
  by (simp add: to_double_def ulp_small)






lemma increment_small: "n < 9007199254740992 \<Longrightarrow> increment (Some n) = n + 1"
proof -
  assume "n < 9007199254740992"
  then have "n + 1 < 9007199254740992 \<or> n + 1 = 9007199254740992" by arith
  then show ?thesis
  proof
    assume "n + 1 < 9007199254740992"
    then show ?thesis by (simp add: increment_def to_double_small)
  next
    assume e: "n + 1 = 9007199254740992"
    have "to_double 9007199254740992 = 9007199254740992" by (simp add: to_double_def ulp.simps)
    then show ?thesis unfolding increment_def using e by simp
  qed
qed








section \<open>Listeners and the stored counter\<close>

lemma listener_inv_step: "listener_inv s \<Longrightarrow> listener_inv (step s i)"
proof (cases i)
  case (Request p) then show "listener_inv s \<Longrightarrow> ?thesis"
    by (auto simp: fetch_def listener_inv_def fetch_events_def fetch_events_on_def Let_def enqueue_def new_stream_def
        list_all_iff)
next
  case TimerFires
  then show "listener_inv s \<Longrightarrow> ?thesis"
    using broadcast_clients_subset [of "sse_data (Some (increment (counter s)))" "clients s"
        "put_counter (s\<lparr>counter := Some (increment (counter s))\<rparr>)"]
    by (auto simp: listener_inv_def tick_def Let_def list_all_iff)
next
  case TimerFiresPutRejected then show "listener_inv s \<Longrightarrow> ?thesis"
    by (simp add: listener_inv_def)
next
  case (AbortSignal c) then show "listener_inv s \<Longrightarrow> ?thesis"
    by (auto simp: listener_inv_def on_abort_def Let_def list_all_iff)
next
  case (StreamCancelled c) then show "listener_inv s \<Longrightarrow> ?thesis"
    by (simp add: listener_inv_def)
qed

lemma listener_inv_reachable: "listener_inv (run (activate store) ins)"
proof (induction ins rule: rev_induct)
  case Nil
  show ?case by (simp add: run_def listener_inv_def activate_def)
next
  case (snoc i ins)
  then show ?case by (simp add: run_snoc listener_inv_step)
qed

lemma get_counter_upd: "get_counter (m(''counter'' \<mapsto> n)) = n"
  by (simp add: get_counter_def)

lemma store_inv_step: "store_inv s \<Longrightarrow> store_inv (step s i)"
proof (cases i)
  case (Request p) then show "store_inv s \<Longrightarrow> ?thesis"
    by (auto simp: fetch_def store_inv_def fetch_events_def fetch_events_on_def Let_def enqueue_def new_stream_def
        init_counter_def split: option.splits)
next
  case TimerFires
  then show "store_inv s \<Longrightarrow> ?thesis"
    by (simp add: store_inv_def tick_def Let_def)
next
  case TimerFiresPutRejected then show "store_inv s \<Longrightarrow> ?thesis"
    by (simp add: store_inv_def)
next
  case (AbortSignal c) then show "store_inv s \<Longrightarrow> ?thesis"
    by (auto simp: store_inv_def on_abort_def Let_def split: option.splits)
next
  case (StreamCancelled c) then show "store_inv s \<Longrightarrow> ?thesis"
    by (simp add: store_inv_def split: option.splits)
qed

lemma store_inv_reachable: "store_inv (run (activate store) ins)"
proof (induction ins rule: rev_induct)
  case Nil
  show ?case by (simp add: run_def store_inv_def activate_def)
next
  case (snoc i ins)
  then show ?case by (simp add: run_snoc store_inv_step)
qed

lemma running_iff: "timer_inv s \<Longrightarrow> (intervalId s \<noteq> None) = (clients s \<noteq> []) \<and> (timers s \<noteq> []) = (clients s \<noteq> [])"
  by (auto simp: timer_inv_def split: option.splits)

lemma fetch_events_clients:
  "client_inv s \<Longrightarrow> clients (snd (fetch_events s)) = clients s @ [next_stream s]"
  by (auto simp: client_inv_def fetch_events_def fetch_events_on_def Let_def enqueue_def new_stream_def list_all_iff
      split: option.splits)


lemma fetch_events_returns: "fst (fetch_events s) = Returned (events_response (next_stream (init_counter s)))"
  by (simp add: fetch_events_def fetch_events_on_def Let_def enqueue_def new_stream_def)

lemma fetch_never_throws: "fst (fetch path s) \<noteq> Thrown"
  by (simp add: fetch_def fetch_events_returns)


lemmas eval_defs = run_def fetch_def fetch_events_def fetch_events_on_def activate_def init_counter_def
  startCounting_def stopCounting_def truthy_def Let_def enqueue_def new_stream_def tick_def
  put_counter_def increment_def send_or_drop_def on_abort_def get_counter_def sse_data_def
  tick_rejected_def put_rejected_def to_double_def ulp.simps

lemmas record_defs = sse_number_def number_string_def show_nat.simps digit_def

section \<open>Values sent, history and reads\<close>


lemma fetch_events_first:
  assumes "clients s = []"
  shows "clients (snd (fetch_events s)) = [next_stream s]"
    "streams (snd (fetch_events s)) = (streams s)(next_stream s := new_stream)"
    "effects (snd (fetch_events s)) = effects s @ (if counter s = None then [StorageGet] else [])"
    "counter (snd (fetch_events s)) = Some (loaded s)"
    "storage (snd (fetch_events s)) = storage s"
  using assms
  by (auto simp: fetch_events_def fetch_events_on_def Let_def init_counter_def loaded_def)

lemma tick_counter: "counter (tick s) = Some (increment (counter s))"
  by (simp add: tick_def Let_def)




lemma counter_fetch_events:
  "counter (snd (fetch_events s)) = Some (loaded s)"
  by (auto simp: fetch_events_def fetch_events_on_def Let_def init_counter_def loaded_def
      enqueue_def new_stream_def)














lemma replay_append: "replay st (es @ es') = replay (replay st es) es'"
proof (induction es arbitrary: st)
  case Nil
  show ?case by simp
next
  case (Cons e es)
  then show ?case by (cases e) (simp_all del: fun_upd_apply)
qed

lemma pending_append: "pending b (es @ es') = pending (pending b es) es'"
proof (induction es arbitrary: b)
  case Nil
  show ?case by simp
next
  case (Cons e es)
  then show ?case by (cases e) simp_all
qed

lemma committed_first_append:
  "committed_first st b (es @ es') =
     (committed_first st b es \<and> committed_first (replay st es) (pending b es) es')"
proof (induction es arbitrary: st b)
  case Nil
  show ?case by simp
next
  case (Cons e es)
  then show ?case by (cases e) (simp_all del: fun_upd_apply)
qed

lemma committed_first_broadcast:
  "get_counter st = n \<Longrightarrow>
   committed_first st b (map (\<lambda>c. if r c then Enqueued c (sse_number n) else EnqueueThrew c) cs)"
  by (induction cs) simp_all

lemma replay_broadcast:
  "replay st (map (\<lambda>c. if r c then Enqueued c d else EnqueueThrew c) cs) = st"
  by (induction cs) simp_all

lemma pending_broadcast:
  "pending b (map (\<lambda>c. if r c then Enqueued c d else EnqueueThrew c) cs) = b"
  by (induction cs) simp_all

lemma history_inv_fetch_events:
  assumes "history_inv store s"
  shows "history_inv store (snd (fetch_events s))"
  using assms
  by (auto simp: history_inv_def unsaved_def fetch_events_def fetch_events_on_def Let_def
      init_counter_def enqueue_def new_stream_def sse_data_def replay_append pending_append
      committed_first_append split: option.splits)

lemma history_inv_tick:
  assumes "history_inv store s" "client_inv s"
  shows "history_inv store (tick s)"
proof -
  have st: "storage (tick s) = (storage s)(''counter'' \<mapsto> increment (counter s))"
    by (simp add: tick_def Let_def put_counter_def)
  show ?thesis
    using assms(1)
    by (simp add: history_inv_def unsaved_def st tick_effects [OF assms(2)] tick_counter
        replay_append pending_append committed_first_append replay_broadcast pending_broadcast
        committed_first_broadcast [OF get_counter_upd] get_counter_upd)
qed

lemma history_inv_tick_rejected:
  assumes "history_inv store s"
  shows "history_inv store (tick_rejected s)"
  using assms
  by (simp add: history_inv_def unsaved_def replay_append pending_append committed_first_append)

lemma history_inv_step:
  "history_inv store s \<Longrightarrow> client_inv s \<Longrightarrow> history_inv store (step s i)"
proof (cases i)
  case (Request p) then show "history_inv store s \<Longrightarrow> ?thesis"
    by (simp add: fetch_def history_inv_fetch_events)
next
  case TimerFires then show "history_inv store s \<Longrightarrow> client_inv s \<Longrightarrow> ?thesis"
    by (simp add: history_inv_tick)
next
  case TimerFiresPutRejected then show "history_inv store s \<Longrightarrow> ?thesis"
    by (simp add: history_inv_tick_rejected)
next
  case (AbortSignal c) then show "history_inv store s \<Longrightarrow> ?thesis"
    by (auto simp: history_inv_def split: option.splits)
next
  case (StreamCancelled c) then show "history_inv store s \<Longrightarrow> ?thesis"
    by (auto simp: history_inv_def split: option.splits)
qed

lemma history_inv_reachable: "history_inv store (run (activate store) ins)"
proof (induction ins rule: rev_induct)
  case Nil
  show ?case by (simp add: run_def history_inv_def unsaved_def activate_def)
next
  case (snoc i ins)
  then show ?case
    by (simp add: run_snoc history_inv_step client_inv_reachable)
qed

lemma reads_broadcast: "reads (broadcast d cs s) = reads s"
  by (induction cs arbitrary: s) (simp_all add: reads_def send_or_drop_effects)

lemma reads_stop: "reads (stopCounting s) = reads s"
  by (simp add: reads_def)

lemma reads_tick: "reads (tick s) = reads s"
proof -
  have "reads (put_counter (s\<lparr>counter := Some (increment (counter s))\<rparr>)) = reads s"
    by (simp add: reads_def put_counter_def)
  then show ?thesis
    by (simp add: tick_def Let_def reads_broadcast reads_stop)
qed

lemma reads_fetch_events:
  "reads (snd (fetch_events s)) = reads s + (if counter s = None then 1 else 0)"
  by (simp add: reads_def fetch_events_def fetch_events_on_def Let_def init_counter_def
      enqueue_def new_stream_def)

lemma reads_inv_step: "reads_inv s \<Longrightarrow> reads_inv (step s i)"
proof (cases i)
  case (Request p) then show "reads_inv s \<Longrightarrow> ?thesis"
    by (auto simp: fetch_def reads_inv_def reads_fetch_events counter_fetch_events
        split: option.splits)
next
  case TimerFires then show "reads_inv s \<Longrightarrow> ?thesis"
    by (auto simp: reads_inv_def reads_tick tick_counter split: option.splits)
next
  case TimerFiresPutRejected then show "reads_inv s \<Longrightarrow> ?thesis"
    by (auto simp: reads_inv_def reads_def split: option.splits)
next
  case (AbortSignal c) then show "reads_inv s \<Longrightarrow> ?thesis"
    by (auto simp: reads_inv_def reads_def on_abort_def Let_def split: option.splits)
next
  case (StreamCancelled c) then show "reads_inv s \<Longrightarrow> ?thesis"
    by (auto simp: reads_inv_def reads_def split: option.splits)
qed

lemma reads_inv_reachable: "reads_inv (run (activate store) ins)"
proof (induction ins rule: rev_induct)
  case Nil
  show ?case by (simp add: run_def reads_inv_def reads_def activate_def)
next
  case (snoc i ins)
  then show ?case by (simp add: run_snoc reads_inv_step)
qed

section \<open>The claims\<close>

text \<open>
  Claim C1 does not hold once the store rejects a \<open>put\<close>. The callback has incremented
  the counter before the \<open>await\<close> and nothing takes the increment back, so the catch-up
  record of the next subscriber carries a value that the store has never held: here
  the record of 1, while the store has no entry.
\<close>

theorem C1_catch_up_after_rejected_put:
  "effects (run (activate Map.empty) [Request ''/events'', TimerFiresPutRejected, Request ''/events'']) =
     [StorageGet, StoragePutRejected 1, Enqueued 1 (''data: 1'' @ [CHR 0x0A, CHR 0x0A])] \<and>
   enqueued (streams (run (activate Map.empty)
       [Request ''/events'', TimerFiresPutRejected, Request ''/events'']) 1) =
     [''data: 1'' @ [CHR 0x0A, CHR 0x0A]] \<and>
   storage (run (activate Map.empty)
       [Request ''/events'', TimerFiresPutRejected, Request ''/events'']) ''counter'' = None"
  by (simp add: eval_defs record_defs)

text \<open>
  Claim C1, amended. Along every run of an activation, each record that a controller
  has accepted while the last \<open>put\<close> before it, if there was one, had completed is the
  record of the value the durable store held at that moment: replaying the completed
  writes that precede the delivery in the effect history, on the store the activation
  started from, gives the value delivered (an absent entry counts as \<open>0\<close>, as it does
  when the counter is loaded). The store of the state is the replay of the whole
  history. A tick whose \<open>put\<close> completes writes before it delivers: its effects are the
  \<open>put\<close> of the incremented counter followed by one \<open>enqueue\<close> per client, each of the
  record of that value, and the store holds it when the tick ends. A tick whose \<open>put\<close>
  is rejected delivers nothing and leaves the store as it was.
\<close>

theorem C1_persist_before_broadcast:
  assumes "s = run (activate store) ins"
  shows "(\<forall>pre c d post. effects s = pre @ Enqueued c d # post \<and> \<not> unsaved pre \<longrightarrow>
            d = sse_number (get_counter (replay store pre))) \<and>
         storage s = replay store (effects s) \<and>
         effects (tick s) =
           effects s @ StoragePut (increment (counter s)) #
             map (\<lambda>c. if readable (streams s c)
                       then Enqueued c (sse_number (increment (counter s)))
                       else EnqueueThrew c) (clients s) \<and>
         storage (tick s) ''counter'' = Some (increment (counter s)) \<and>
         effects (tick_rejected s) = effects s @ [StoragePutRejected (increment (counter s))] \<and>
         streams (tick_rejected s) = streams s \<and>
         storage (tick_rejected s) = storage s"
proof -
  have h: "history_inv store s" and c: "client_inv s"
    using assms by (simp_all add: history_inv_reachable client_inv_reachable)
  have a: "d = sse_number (get_counter (replay store pre))"
    if "effects s = pre @ Enqueued c d # post" "\<not> unsaved pre" for pre c d post
    using h that(2) unfolding history_inv_def that(1)
    by (simp add: committed_first_append unsaved_def)
  have st: "storage (tick s) ''counter'' = Some (increment (counter s))"
    by (simp add: tick_def Let_def put_counter_def)
  have r: "effects (tick_rejected s) = effects s @ [StoragePutRejected (increment (counter s))]"
    "streams (tick_rejected s) = streams s" "storage (tick_rejected s) = storage s"
    by simp_all
  show ?thesis
    using a h st r tick_effects [OF c] unfolding history_inv_def by blast
qed

text \<open>The statement above, at a run of the session.\<close>

theorem C1_persist_before_broadcast_witness:
  "effects (run (activate Map.empty) [Request ''/events'', TimerFiresPutRejected, TimerFires]) =
     [StorageGet, StoragePutRejected 1, StoragePut 2] @ Enqueued 0 (sse_number 2) # [] \<and>
   \<not> unsaved [StorageGet, StoragePutRejected 1, StoragePut 2] \<and>
   sse_number 2 =
     sse_number (get_counter (replay Map.empty [StorageGet, StoragePutRejected 1, StoragePut 2]))"
proof -
  let ?s = "run (activate Map.empty) [Request ''/events'', TimerFiresPutRejected, TimerFires]"
  have h: "effects ?s = [StorageGet, StoragePutRejected 1, StoragePut 2] @ Enqueued 0 (sse_number 2) # []"
    by (simp add: eval_defs) (simp add: numeral_2_eq_2)
  have u: "\<not> unsaved [StorageGet, StoragePutRejected 1, StoragePut 2]"
    by (simp add: unsaved_def)
  from C1_persist_before_broadcast
    [OF refl, of Map.empty "[Request ''/events'', TimerFiresPutRejected, TimerFires]"] h u
  have "sse_number 2 =
     sse_number (get_counter (replay Map.empty [StorageGet, StoragePutRejected 1, StoragePut 2]))"
    by blast
  with h u show ?thesis by blast
qed




text \<open>
  Claim C3. In every state a session reaches, a timer handle is held, and a timer is
  set, exactly when the client set is non-empty. In particular an \<open>/events\<close> request
  on an empty set leaves a timer set; the abort signal of the only client, whose
  listener is registered, leaves none; and so does a tick in which the \<open>enqueue\<close> of
  every client throws.
\<close>

theorem C3_running_iff_subscribers:
  assumes "s = run (activate store) ins"
  shows "(intervalId s \<noteq> None) = (clients s \<noteq> []) \<and>
         (timers s \<noteq> []) = (clients s \<noteq> []) \<and>
         (clients s = [] \<longrightarrow>
            clients (step s (Request ''/events'')) \<noteq> [] \<and>
            timers (step s (Request ''/events'')) \<noteq> []) \<and>
         (\<forall>c. clients s = [c] \<longrightarrow>
            c \<in> set (listeners s) \<and>
            clients (step s (AbortSignal c)) = [] \<and>
            timers (step s (AbortSignal c)) = []) \<and>
         (clients s \<noteq> [] \<and> list_all (\<lambda>c. \<not> readable (streams s c)) (clients s) \<longrightarrow>
            clients (step s TimerFires) = [] \<and>
            timers (step s TimerFires) = [])"
proof -
  have t: "timer_inv s" and c: "client_inv s" and l: "listener_inv s"
    using assms by (simp_all add: timer_inv_reachable client_inv_reachable listener_inv_reachable)
  have next_state: "\<And>i. clients (step s i) = [] \<Longrightarrow> timers (step s i) = []"
    and next_state': "\<And>i. clients (step s i) \<noteq> [] \<Longrightarrow> timers (step s i) \<noteq> []"
    using running_iff [OF timer_inv_step [OF t]] by simp_all
  have attach: "clients (step s (Request ''/events'')) \<noteq> []"
    by (simp add: fetch_def fetch_events_clients [OF c])
  have mem: "x \<in> set (listeners s)" if "clients s = [x]" for x
    using that l by (simp add: listener_inv_def)
  have detach: "clients (step s (AbortSignal x)) = []" if "clients s = [x]" for x
    using that mem [OF that] by (simp add: on_abort_def Let_def)
  have fail: "clients (step s TimerFires) = []"
    if "clients s \<noteq> []" "list_all (\<lambda>c. \<not> readable (streams s c)) (clients s)"
    using that running_iff [OF t] by (simp add: tick_clients [OF c] list_all_iff filter_empty_conv)
  show ?thesis
    using running_iff [OF t] attach next_state' [OF attach] mem detach next_state [OF detach]
      fail next_state [OF fail]
    by blast
qed

text \<open>The statement above, at a run of the session.\<close>

theorem C3_running_iff_subscribers_witness:
  "clients (run (activate Map.empty) []) = [] \<and>
   timers (step (run (activate Map.empty) []) (Request ''/events'')) \<noteq> [] \<and>
   clients (run (activate Map.empty) [Request ''/events'']) = [0] \<and>
   timers (step (run (activate Map.empty) [Request ''/events'']) (AbortSignal 0)) = [] \<and>
   clients (run (activate Map.empty) [Request ''/events'', StreamCancelled 0]) \<noteq> [] \<and>
   list_all (\<lambda>c. \<not> readable (streams (run (activate Map.empty) [Request ''/events'', StreamCancelled 0]) c))
     (clients (run (activate Map.empty) [Request ''/events'', StreamCancelled 0])) \<and>
   timers (step (run (activate Map.empty) [Request ''/events'', StreamCancelled 0]) TimerFires) = []"
proof -
  let ?s0 = "run (activate Map.empty) []"
  let ?s1 = "run (activate Map.empty) [Request ''/events'']"
  let ?s2 = "run (activate Map.empty) [Request ''/events'', StreamCancelled 0]"
  have h1: "clients ?s0 = []" by (simp add: eval_defs)
  have h2: "clients ?s1 = [0]" by (simp add: eval_defs)
  have h3: "clients ?s2 \<noteq> []" "list_all (\<lambda>c. \<not> readable (streams ?s2 c)) (clients ?s2)"
    by (simp_all add: eval_defs)
  from C3_running_iff_subscribers [OF refl, of Map.empty "[]"] h1
  have c1: "timers (step ?s0 (Request ''/events'')) \<noteq> []" by blast
  from C3_running_iff_subscribers [OF refl, of Map.empty "[Request ''/events'']"] h2
  have c2: "timers (step ?s1 (AbortSignal 0)) = []" by blast
  from C3_running_iff_subscribers [OF refl, of Map.empty "[Request ''/events'', StreamCancelled 0]"] h3
  have c3: "timers (step ?s2 TimerFires) = []" by blast
  show ?thesis using h1 h2 h3 c1 c2 c3 by blast
qed

text \<open>
  Claim C4. In a tick, the clients whose \<open>enqueue\<close> throws, and only they, are deleted
  from the set: the throw is caught in the loop, every other client is sent the record
  of the new counter value, no stream outside the set changes, and the timer stays set
  while a client remains. The catch-up delivery is no exception to the claim, as it
  cannot fail: \<open>fetch\<close> enqueues it on the stream the same request has just created,
  which is readable, and so never throws.
\<close>

theorem C4_delivery_failure:
  assumes "s = run (activate store) ins"
  shows "clients (tick s) = filter (\<lambda>c. readable (streams s c)) (clients s) \<and>
         (\<forall>c. streams (tick s) c =
            (if c \<in> set (clients s) \<and> readable (streams s c)
             then (streams s c)\<lparr>enqueued := enqueued (streams s c) @ [sse_number (increment (counter s))]\<rparr>
             else streams s c)) \<and>
         (list_ex (\<lambda>c. readable (streams s c)) (clients s) \<longrightarrow> timers (tick s) = timers s) \<and>
         (\<forall>path. fst (fetch path s) \<noteq> Thrown)"
proof -
  have t: "timer_inv s" and c: "client_inv s"
    using assms by (simp_all add: timer_inv_reachable client_inv_reachable)
  show ?thesis
    by (simp add: tick_clients [OF c] tick_streams [OF c] tick_timers [OF c t] fetch_never_throws)
qed

text \<open>The statement above, at a run of the session.\<close>

theorem C4_delivery_failure_witness:
  "clients (run (activate Map.empty) [Request ''/events'', Request ''/events'', StreamCancelled 0]) = [0, 1] \<and>
   \<not> readable (streams (run (activate Map.empty) [Request ''/events'', Request ''/events'', StreamCancelled 0]) 0) \<and>
   readable (streams (run (activate Map.empty) [Request ''/events'', Request ''/events'', StreamCancelled 0]) 1) \<and>
   clients (tick (run (activate Map.empty) [Request ''/events'', Request ''/events'', StreamCancelled 0])) = [1] \<and>
   enqueued (streams (tick (run (activate Map.empty) [Request ''/events'', Request ''/events'', StreamCancelled 0])) 1)
     = [sse_number 0, sse_number 1] \<and>
   enqueued (streams (tick (run (activate Map.empty) [Request ''/events'', Request ''/events'', StreamCancelled 0])) 0)
     = [] \<and>
   timers (tick (run (activate Map.empty) [Request ''/events'', Request ''/events'', StreamCancelled 0])) = [1]"
proof -
  let ?s = "run (activate Map.empty) [Request ''/events'', Request ''/events'', StreamCancelled 0]"
  have h: "clients ?s = [0, 1]" "\<not> readable (streams ?s 0)" "readable (streams ?s 1)"
    "enqueued (streams ?s 0) = []" "enqueued (streams ?s 1) = [sse_number 0]"
    "timers ?s = [1]" "counter ?s = Some 0"
    by (simp_all add: eval_defs)
  from C4_delivery_failure [OF refl, of Map.empty "[Request ''/events'', Request ''/events'', StreamCancelled 0]"]
  show ?thesis using h by (simp add: increment_def to_double_def ulp.simps)
qed

text \<open>
  Claim C5. In a state a session reaches with an empty client set, no timer is set. An
  \<open>/events\<close> request then makes the new client the only one and sets the timer; it
  enqueues nothing, its only possible effect being the load of the counter, so the
  new stream has been sent nothing. The next firing of the timer sends it its first
  record, that of the incremented counter: the loaded counter plus one, for every
  counter below \<open>2\<^sup>5\<^sup>3\<close>.
\<close>

theorem C5_first_subscriber:
  assumes "s = run (activate store) ins" and "clients s = []"
  shows "clients (snd (fetch ''/events'' s)) = [next_stream s] \<and>
         enqueued (streams (snd (fetch ''/events'' s)) (next_stream s)) = [] \<and>
         effects (snd (fetch ''/events'' s)) =
           effects s @ (if counter s = None then [StorageGet] else []) \<and>
         timers s = [] \<and>
         timers (snd (fetch ''/events'' s)) \<noteq> [] \<and>
         counter (snd (fetch ''/events'' s)) = Some (loaded s) \<and>
         enqueued (streams (step (snd (fetch ''/events'' s)) TimerFires) (next_stream s)) =
           [sse_number (increment (Some (loaded s)))] \<and>
         (loaded s < 9007199254740992 \<longrightarrow>
            enqueued (streams (step (snd (fetch ''/events'' s)) TimerFires) (next_stream s)) =
              [sse_number (loaded s + 1)])"
proof -
  let ?s' = "snd (fetch_events s)"
  have f: "fetch ''/events'' s = fetch_events s" by (simp add: fetch_def)
  have t: "timer_inv s" and c: "client_inv s"
    using assms(1) by (simp_all add: timer_inv_reachable client_inv_reachable)
  note e = fetch_events_first [OF assms(2)]
  have t': "timer_inv ?s'" by (rule timer_inv_fetch_events [OF t])
  have c': "client_inv ?s'" by (rule client_inv_fetch_events [OF c])
  have off: "timers s = []" using running_iff [OF t] assms(2) by simp
  have on: "timers ?s' \<noteq> []" using running_iff [OF t'] e(1) by simp
  have q: "enqueued (streams ?s' (next_stream s)) = []" by (simp add: e(2) new_stream_def)
  have k: "enqueued (streams (step ?s' TimerFires) (next_stream s)) =
             [sse_number (increment (Some (loaded s)))]"
    using on by (simp add: tick_streams [OF c'] e new_stream_def)
  have k': "enqueued (streams (step ?s' TimerFires) (next_stream s)) = [sse_number (loaded s + 1)]"
    if "loaded s < 9007199254740992"
    using k increment_small [OF that] by simp
  show ?thesis unfolding f using e(1) q e(3) off on e(4) k k' by simp
qed

text \<open>The statement above, at a run of the session.\<close>

theorem C5_first_subscriber_witness:
  "clients (run (activate Map.empty) []) = [] \<and>
   enqueued (streams (snd (fetch ''/events'' (run (activate Map.empty) []))) 0) = [] \<and>
   enqueued (streams (step (snd (fetch ''/events'' (run (activate Map.empty) []))) TimerFires) 0) =
     [sse_number 1]"
proof -
  let ?s = "run (activate Map.empty) []"
  have h: "clients ?s = []" and n: "next_stream ?s = 0"
    and l: "increment (Some (loaded ?s)) = 1"
    by (simp_all add: eval_defs loaded_def)
  note r = C5_first_subscriber [OF refl h, unfolded n l]
  show ?thesis using h r by blast
qed




text \<open>
  Claim C7 does not hold of the first request as such. A request for the page is
  answered without loading the counter, so the load is done by a later request: here
  by the \<open>/events\<close> request that follows.
\<close>

theorem C7_page_request_does_not_load:
  "counter (run (activate [''counter'' \<mapsto> 42]) [Request ''/'']) = None \<and>
   effects (run (activate [''counter'' \<mapsto> 42]) [Request ''/'']) = [] \<and>
   effects (run (activate [''counter'' \<mapsto> 42]) [Request ''/'', Request ''/events'']) = [StorageGet]"
  by (simp add: eval_defs)

text \<open>
  Claim C7, amended. Along every run of an activation the durable store is read at
  most once. While the counter is not loaded nothing has been read, and an \<open>/events\<close>
  request loads it with one read; once it is loaded every request leaves the counter
  as it is and reads nothing. A request for any other path changes nothing at all. The
  value loaded is the stored one, and \<open>0\<close> when the entry is absent.
\<close>

theorem C7_load_once:
  assumes "s = run (activate store) ins"
  shows "reads s \<le> 1 \<and>
         (counter s = None \<longrightarrow>
            reads s = 0 \<and>
            counter (step s (Request ''/events'')) = Some (get_counter (storage s)) \<and>
            effects (step s (Request ''/events'')) = effects s @ [StorageGet]) \<and>
         (\<forall>path n. counter s = Some n \<longrightarrow>
            counter (step s (Request path)) = Some n \<and>
            reads (step s (Request path)) = reads s) \<and>
         (\<forall>path. path \<noteq> ''/events'' \<longrightarrow> step s (Request path) = s) \<and>
         (storage s ''counter'' = None \<longrightarrow> get_counter (storage s) = 0) \<and>
         (\<forall>v. storage s ''counter'' = Some v \<longrightarrow> get_counter (storage s) = v)"
proof -
  have r: "reads_inv s" and st: "store_inv s"
    using assms by (simp_all add: reads_inv_reachable store_inv_reachable)
  have a: "reads s \<le> 1" "counter s = None \<Longrightarrow> reads s = 0"
    using r by (auto simp: reads_inv_def split: option.splits)
  have b: "counter (step s (Request ''/events'')) = Some (get_counter (storage s))"
    "effects (step s (Request ''/events'')) = effects s @ [StorageGet]"
    if "counter s = None"
  proof -
    from st that have e: "clients s = []" by (simp add: store_inv_def)
    show "counter (step s (Request ''/events'')) = Some (get_counter (storage s))"
      "effects (step s (Request ''/events'')) = effects s @ [StorageGet]"
      using that by (simp_all add: fetch_def fetch_events_first [OF e] loaded_def)
  qed
  have c: "counter (step s (Request path)) = Some n \<and> reads (step s (Request path)) = reads s"
    if "counter s = Some n" for path n
    using that by (simp add: fetch_def counter_fetch_events reads_fetch_events loaded_def)
  have d: "step s (Request path) = s" if "path \<noteq> ''/events''" for path
    using that by (simp add: fetch_def)
  have e: "storage s ''counter'' = None \<Longrightarrow> get_counter (storage s) = 0"
    "\<And>v. storage s ''counter'' = Some v \<Longrightarrow> get_counter (storage s) = v"
    by (simp_all add: get_counter_def)
  show ?thesis using a b c d e by blast
qed

text \<open>The statement above, at a run of the session.\<close>

theorem C7_load_once_witness:
  "counter (run (activate [''counter'' \<mapsto> 42]) [Request ''/'']) = None \<and>
   storage (run (activate [''counter'' \<mapsto> 42]) [Request ''/'']) ''counter'' = Some 42 \<and>
   counter (step (run (activate [''counter'' \<mapsto> 42]) [Request ''/'']) (Request ''/events'')) = Some 42 \<and>
   counter (run (activate [''counter'' \<mapsto> 42]) [Request ''/events'']) = Some 42 \<and>
   reads (step (run (activate [''counter'' \<mapsto> 42]) [Request ''/events'']) (Request ''/events'')) = 1 \<and>
   ''/favicon.ico'' \<noteq> ''/events'' \<and>
   step (run (activate [''counter'' \<mapsto> 42]) [Request ''/events'']) (Request ''/favicon.ico'') =
     run (activate [''counter'' \<mapsto> 42]) [Request ''/events''] \<and>
   storage (activate Map.empty) ''counter'' = None \<and>
   get_counter (storage (run (activate Map.empty) [])) = 0"
proof -
  let ?a = "run (activate [''counter'' \<mapsto> 42]) [Request ''/'']"
  let ?b = "run (activate [''counter'' \<mapsto> 42]) [Request ''/events'']"
  let ?c = "run (activate Map.empty) []"
  have h: "counter ?a = None" "storage ?a ''counter'' = Some 42" "counter ?b = Some 42"
    "reads ?b = 1" "''/favicon.ico'' \<noteq> ''/events''" "storage ?c ''counter'' = None"
    "storage (activate Map.empty) ''counter'' = None"
    by (simp_all add: eval_defs reads_def)
  note ra = C7_load_once [OF refl, of "[''counter'' \<mapsto> 42]" "[Request ''/'']"]
  note rb = C7_load_once [OF refl, of "[''counter'' \<mapsto> 42]" "[Request ''/events'']"]
  note rc = C7_load_once [OF refl, of Map.empty "[]"]
  from ra h(1) have "counter (step ?a (Request ''/events'')) = Some (get_counter (storage ?a))"
    by blast
  moreover from ra h(2) have "get_counter (storage ?a) = 42" by blast
  ultimately have c1: "counter (step ?a (Request ''/events'')) = Some 42" by simp
  from rb h(3) have "reads (step ?b (Request ''/events'')) = reads ?b" by blast
  with h(4) have c2: "reads (step ?b (Request ''/events'')) = 1" by simp
  have c3: "step ?b (Request ''/favicon.ico'') = ?b"
    using rb [THEN conjunct2, THEN conjunct2, THEN conjunct2, THEN conjunct1, rule_format, OF h(5)] .
  from rc h(6) have c4: "get_counter (storage ?c) = 0" by blast
  show ?thesis using h c1 c2 c3 c4 by blast
qed

text \<open>
  Claim C8. An activation on a store holding 42 starts with no client and no timer. Its
  first \<open>/events\<close> request sets the timer and sends nothing; the first firing of the
  timer stores 43 and then sends the record \<open>data: 43\<close> followed by two line feeds.
\<close>

theorem C8_restart_at_42:
  "clients (activate [''counter'' \<mapsto> 42]) = [] \<and>
   timers (activate [''counter'' \<mapsto> 42]) = [] \<and>
   intervalId (run (activate [''counter'' \<mapsto> 42]) [Request ''/events'']) = Some 1 \<and>
   timers (run (activate [''counter'' \<mapsto> 42]) [Request ''/events'']) = [1] \<and>
   enqueued (streams (run (activate [''counter'' \<mapsto> 42]) [Request ''/events'']) 0) = [] \<and>
   enqueued (streams (run (activate [''counter'' \<mapsto> 42]) [Request ''/events'', TimerFires]) 0) =
     [''data: 43'' @ [CHR 0x0A, CHR 0x0A]] \<and>
   effects (run (activate [''counter'' \<mapsto> 42]) [Request ''/events'', TimerFires]) =
     [StorageGet, StoragePut 43, Enqueued 0 (''data: 43'' @ [CHR 0x0A, CHR 0x0A])]"
  by (simp add: eval_defs record_defs)

text \<open>
  Claim C9. A request whose path is neither \<open>/\<close>, the empty path nor \<open>/events\<close> is
  answered with the not-found response, of status 404, and leaves the whole session
  state as it was: the counter, the subscriber set and the timer among the rest.
\<close>

theorem C9_unknown_route:
  "path \<noteq> ''/'' \<Longrightarrow> path \<noteq> '''' \<Longrightarrow> path \<noteq> ''/events'' \<Longrightarrow>
     fetch path s = (Returned not_found, s) \<and> status not_found = 404 \<and>
     step s (Request path) = s"
  by (simp add: fetch_def not_found_def)

text \<open>The statement above, at a run of the session.\<close>

theorem C9_unknown_route_witness:
  "''/metrics'' \<noteq> ''/'' \<and> ''/metrics'' \<noteq> '''' \<and> ''/metrics'' \<noteq> ''/events'' \<and>
   fetch ''/metrics'' (activate Map.empty) = (Returned not_found, activate Map.empty) \<and>
   status not_found = 404 \<and>
   step (activate Map.empty) (Request ''/metrics'') = activate Map.empty"
  using C9_unknown_route [of "''/metrics''" "activate Map.empty"] by simp

text \<open>
  Claim C10. In every state a session reaches, at most one timer is set. There
  \<open>startCounting\<close> changes nothing while a handle is held, \<open>stopCounting\<close> changes
  nothing while none is, and \<open>stopCounting\<close> clears the handle and the timer, so that
  the next \<open>startCounting\<close> sets one timer under a handle that was not in use.
\<close>

theorem C10_single_timer:
  assumes "s = run (activate store) ins"
  shows "length (timers s) \<le> 1 \<and>
         (intervalId s \<noteq> None \<longrightarrow> startCounting s = s) \<and>
         (intervalId s = None \<longrightarrow> stopCounting s = s) \<and>
         intervalId (stopCounting s) = None \<and> timers (stopCounting s) = [] \<and>
         intervalId (startCounting (stopCounting s)) = Some (next_timer s) \<and>
         timers (startCounting (stopCounting s)) = [next_timer s] \<and>
         next_timer s \<notin> set (timers s)"
proof -
  have "timer_inv s" using assms by (simp add: timer_inv_reachable)
  then show ?thesis
    by (auto simp: timer_inv_def startCounting_def stopCounting_def truthy_def split: option.splits)
qed

text \<open>The statement above, at a run of the session.\<close>

theorem C10_single_timer_witness:
  "length (timers (run (activate Map.empty) [Request ''/events''])) \<le> 1 \<and>
   intervalId (run (activate Map.empty) [Request ''/events'']) = Some 1 \<and>
   startCounting (run (activate Map.empty) [Request ''/events'']) = run (activate Map.empty) [Request ''/events''] \<and>
   intervalId (activate Map.empty) = None \<and>
   stopCounting (activate Map.empty) = activate Map.empty \<and>
   timers (startCounting (stopCounting (run (activate Map.empty) [Request ''/events'']))) = [2]"
proof -
  have a: "intervalId (run (activate Map.empty) [Request ''/events'']) = Some 1"
    and b: "next_timer (run (activate Map.empty) [Request ''/events'']) = 2"
    by (simp_all add: run_def fetch_def fetch_events_def fetch_events_on_def activate_def init_counter_def
        startCounting_def truthy_def Let_def)
  have c: "intervalId (activate Map.empty) = None" by (simp add: activate_def)
  show ?thesis
    using C10_single_timer [of "run (activate Map.empty) [Request ''/events'']" Map.empty "[Request ''/events'']"]
      C10_single_timer [of "activate Map.empty" Map.empty "[]"] a b c
    by (simp add: run_def)
qed

end
